theory Spec2Isabelle
  imports Main "HOL-Library.Word"
begin

section \<open>The tunnel of share/tunnel/tunnel.go\<close>

text \<open>
  The embedding follows the source function by function. What the code takes from
  its surroundings is an explicit argument of the model: the value a blocking call
  returns (\<open>c.Wait()\<close>, \<open>sshConn.SendRequest\<close>, \<open>sshConn.Close()\<close>), the moment a
  channel becomes ready, and the pseudo-random draw of a \<open>select\<close> among cases that
  are ready together. Time is counted in nanoseconds, the unit of \<open>time.Duration\<close>.
  Logging (\<open>Debugf\<close>) has no effect on the control flow and is left out, but for
  line 168, where building the message can panic.
\<close>

subsection \<open>Errors, connections, contexts\<close>

text \<open>A non-nil Go \<open>error\<close>, identified by its message; \<open>nil\<close> is \<open>None\<close>.\<close>

datatype error = Error string

text \<open>The argument of a Go \<open>panic\<close>.\<close>

datatype panic = Panic string

text \<open>
  An \<open>ssh.Conn\<close> is an interface value, a reference to a connection object of the
  transport library. The only state of that object the tunnel code depends on is
  whether it has been closed; a store is the set of closed connections.
\<close>

type_synonym ssh_Conn = nat

type_synonym conns = "ssh_Conn set"

text \<open>
  \<open>c.Close()\<close>: the connection is closed afterwards; \<open>r\<close> is the value the transport
  returns from the call.
\<close>

definition conn_Close :: "ssh_Conn \<Rightarrow> error option \<Rightarrow> conns \<Rightarrow> error option \<times> conns" where
  "conn_Close c r closed = (r, insert c closed)"

text \<open>
  A \<open>context.Context\<close> as seen from a call: the time from the call until its
  \<open>Done()\<close> channel is closed, \<open>None\<close> when it never is, \<open>Some 0\<close> when it is
  closed already.
\<close>

record "context" =
  done_after :: "nat option"

text \<open>
  Modelled from the spec: \<open>isDone\<close> is a helper of the tunnel package that is not in
  tunnel.go; it tells whether the context is cancelled already.
\<close>

definition isDone :: "context \<Rightarrow> bool" where
  "isDone ctx \<longleftrightarrow> done_after ctx = Some 0"

subsection \<open>The gate \<open>activatingConn\<close>\<close>

text \<open>
  Modelled from the spec: the type \<open>waitGroup\<close> of the field \<open>activatingConn\<close> is
  declared outside tunnel.go. It is the re-armable countdown the spec calls the
  readiness gate: \<open>Add\<close> arms it (markPending), \<open>Done\<close> counts one down (markReady)
  and \<open>Wait\<close> blocks while the count is positive. \<open>Done\<close> on a gate that is open
  already leaves it open. \<open>DoneAll\<close>, which only \<open>BindSSH\<close> names, counts down to
  zero, as its name says.
\<close>

type_synonym waitGroup = nat

definition wg_Add :: "nat \<Rightarrow> waitGroup \<Rightarrow> waitGroup" where
  "wg_Add n w = w + n"

definition wg_Done :: "waitGroup \<Rightarrow> waitGroup" where
  "wg_Done w = w - 1"

definition wg_DoneAll :: "waitGroup \<Rightarrow> waitGroup" where
  "wg_DoneAll w = 0"

definition wg_pending :: "waitGroup \<Rightarrow> bool" where
  "wg_pending w \<longleftrightarrow> 0 < w"

subsection \<open>\<open>select\<close>\<close>

text \<open>
  A blocking \<open>select\<close> without default: each case comes with the time, counted from
  the start of the \<open>select\<close>, at which its channel becomes ready. The statement
  blocks until the earliest of these times and then takes a case that is ready at
  that time; among several, Go draws one pseudo-randomly (\<open>rnd\<close> is the draw).
  Without any case it blocks forever (\<open>None\<close>).
\<close>

fun earliest :: "nat list \<Rightarrow> nat" where
  "earliest [] = 0"
| "earliest [a] = a"
| "earliest (a # b # bs) = min a (earliest (b # bs))"

definition go_select :: "('c \<times> nat) list \<Rightarrow> nat \<Rightarrow> ('c \<times> nat) option" where
  "go_select cs rnd =
     (if cs = [] then None
      else let ready = filter (\<lambda>ct. snd ct = earliest (map snd cs)) cs
           in Some (ready ! (rnd mod length ready)))"

subsection \<open>Config, Tunnel, New\<close>

text \<open>
  \<open>KeepAlive\<close> is a \<open>time.Duration\<close>, a signed 64-bit count of nanoseconds;
  \<open>proxyCount\<close> is a Go \<open>int\<close>, 64 bits wide on the 64-bit platforms, read as a
  signed number with \<open>sint\<close>.
\<close>

record Config =
  Inbound :: bool
  Outbound :: bool
  Socks :: bool
  KeepAlive :: "64 word"

record Tunnel =
  Config :: Config
  activatingConn :: waitGroup
  activeConn :: "ssh_Conn option"
  proxyCount :: "64 word"
  socksServer :: bool

definition New :: "Config \<Rightarrow> Tunnel" where
  "New c =
     \<lparr>Config = c,
      activatingConn = wg_Add 1 0,
      activeConn = None,
      proxyCount = 0,
      socksServer = Socks c\<rparr>"

subsection \<open>BindSSH\<close>

text \<open>The goroutines a call starts with \<open>go\<close>.\<close>

datatype goroutine =
    CtxWatcher ssh_Conn
  | KeepAliveLoop ssh_Conn
  | HandleSSHRequests
  | HandleSSHChannels

text \<open>
  What a call of \<open>BindSSH\<close> that returns leaves behind: the returned error, the
  tunnel, the tunnel after each of the call's own writes to it in program order
  (what a concurrent reader may see), and the goroutines started.
\<close>

record bound =
  returned :: "error option"
  final :: Tunnel
  observed :: "Tunnel list"
  started :: "goroutine list"

text \<open>
  \<open>BindSSH t c wait\<close>, where \<open>wait\<close> is what \<open>c.Wait()\<close> returns when the
  connection closes. The writes are those of the calling goroutine; the watcher it
  starts is \<open>ctxWatcher\<close> below.
\<close>

definition BindSSH :: "Tunnel \<Rightarrow> ssh_Conn \<Rightarrow> error option \<Rightarrow> panic + bound" where
  "BindSSH t c wait =
     (if activeConn t \<noteq> None then Inl (Panic ''double bind ssh'')
      else
        let t1 = t\<lparr>activeConn := Some c\<rparr>;
            t2 = t1\<lparr>activatingConn := wg_Done (activatingConn t1)\<rparr>;
            gs = [CtxWatcher c]
                 @ (if 0 < sint (KeepAlive (Config t2)) then [KeepAliveLoop c] else [])
                 @ [HandleSSHRequests, HandleSSHChannels];
            err = wait;
            t3 = t2\<lparr>activatingConn := wg_Add 1 (activatingConn t2)\<rparr>;
            t4 = t3\<lparr>activeConn := None\<rparr>
        in Inr \<lparr>returned = err, final = t4, observed = [t1, t2, t3, t4], started = gs\<rparr>)"

text \<open>
  The goroutine of lines 76 to 82, once the context of \<open>BindSSH\<close> is done: it closes
  the connection (\<open>r\<close> is what \<open>c.Close()\<close> returns) and opens the gate for good.
\<close>

definition ctxWatcher :: "Tunnel \<Rightarrow> ssh_Conn \<Rightarrow> error option \<Rightarrow> conns \<Rightarrow> Tunnel \<times> conns" where
  "ctxWatcher t c r closed =
     (t\<lparr>activatingConn := wg_DoneAll (activatingConn t)\<rparr>, snd (conn_Close c r closed))"

subsection \<open>getSSH\<close>

text \<open>
  Modelled from the spec: \<open>settings.EnvDuration\<close> is declared outside tunnel.go.
  It reads a duration the environment configures under the given name and falls
  back to the default passed to it. \<open>env\<close> maps a name to the duration configured
  there, in nanoseconds.
\<close>

definition EnvDuration :: "(string \<rightharpoonup> nat) \<Rightarrow> string \<Rightarrow> nat \<Rightarrow> nat" where
  "EnvDuration env name def = (case env name of Some d \<Rightarrow> d | None \<Rightarrow> def)"

definition Second :: nat where
  "Second = 1000000000"

text \<open>The cases of the \<open>select\<close> in \<open>getSSH\<close>, in source order.\<close>

datatype waiting = CtxDone | TimeAfter | ActivatingConnWait

text \<open>
  What a blocked \<open>getSSH\<close> depends on besides its arguments: the environment
  variables, the moment another goroutine opens the gate (\<open>None\<close>: the gate stays
  shut), the \<open>activeConn\<close> field as it stands when the reader woken by the gate
  takes the lock, and the draw of the \<open>select\<close>.
\<close>

record surroundings =
  environ :: "string \<rightharpoonup> nat"
  gate_opens :: "nat option"
  active_then :: "ssh_Conn option"
  draw :: nat

text \<open>
  \<open>activatingConnWait\<close>: the time at which the returned channel is closed. A gate
  that is open at the call closes the channel at once.
\<close>

definition activatingConnWait :: "Tunnel \<Rightarrow> surroundings \<Rightarrow> nat option" where
  "activatingConnWait t sur =
     (if wg_pending (activatingConn t) then gate_opens sur else Some 0)"

text \<open>
  The read of \<open>t.activeConn\<close> in the last case of the \<open>select\<close> (lines 130 to 132):
  after a wait the field is what the surroundings have made of it, without a wait
  it is the field of \<open>t\<close>.
\<close>

definition reread :: "Tunnel \<Rightarrow> surroundings \<Rightarrow> ssh_Conn option" where
  "reread t sur = (if wg_pending (activatingConn t) then active_then sur else activeConn t)"

text \<open>
  \<open>getSSH\<close> returns the connection (\<open>None\<close> is \<open>nil\<close>) and the time it was blocked.
\<close>

definition getSSH :: "Tunnel \<Rightarrow> context \<Rightarrow> surroundings \<Rightarrow> ssh_Conn option \<times> nat" where
  "getSSH t ctx sur =
     (if isDone ctx then (None, 0)
      else case activeConn t of
        Some c \<Rightarrow> (Some c, 0)
      | None \<Rightarrow>
         (let cs = (case done_after ctx of Some a \<Rightarrow> [(CtxDone, a)] | None \<Rightarrow> [])
                   @ [(TimeAfter, EnvDuration (environ sur) ''SSH_WAIT'' (35 * Second))]
                   @ (case activatingConnWait t sur of
                        Some g \<Rightarrow> [(ActivatingConnWait, g)] | None \<Rightarrow> [])
          in case go_select cs (draw sur) of
               Some (CtxDone, d) \<Rightarrow> (None, d)
             | Some (TimeAfter, d) \<Rightarrow> (None, d)
             | Some (ActivatingConnWait, d) \<Rightarrow> (reread t sur, d)
             | None \<Rightarrow> (None, 0)))"

text \<open>The timeout of \<open>getSSH\<close>: \<open>SSH_WAIT\<close> when configured, 35 seconds otherwise.\<close>

definition wait_for :: "surroundings \<Rightarrow> nat" where
  "wait_for sur = EnvDuration (environ sur) ''SSH_WAIT'' (35 * Second)"

subsection \<open>Close\<close>

text \<open>
  \<open>Close\<close> returns its error and the store; \<open>r\<close> is what \<open>sshConn.Close()\<close> returns.
\<close>

definition Close :: "Tunnel \<Rightarrow> context \<Rightarrow> surroundings \<Rightarrow> error option \<Rightarrow> conns
    \<Rightarrow> error option \<times> conns" where
  "Close t ctx sur r closed =
     (case fst (getSSH t ctx sur) of
        None \<Rightarrow> (None, closed)
      | Some sshConn \<Rightarrow> conn_Close sshConn r closed)"

subsection \<open>The keepalive monitor\<close>

text \<open>
  What \<open>sshConn.SendRequest("ping", true, nil)\<close> does: it returns, after some time,
  the peer's verdict, the reply payload and an error, or it never returns.
\<close>

datatype sent = Returns nat bool string "error option" | Hangs

text \<open>
  \<open>KeepAliveChan\<close> starts a goroutine that sends on an unbuffered channel and
  closes it. The model gives the time at which that goroutine reaches the channel
  and the values it sends there, in order, before the close.
\<close>

definition KeepAliveChan :: "sent \<Rightarrow> (nat \<times> error list) option" where
  "KeepAliveChan s =
     (case s of
        Hangs \<Rightarrow> None
      | Returns d ok b err \<Rightarrow>
          Some (d, (case err of Some e \<Rightarrow> [e] | None \<Rightarrow> [])
                   @ (if length b > 0 \<and> b \<noteq> ''pong''
                      then [Error ''strange ping response''] else [])))"

text \<open>
  The first receive from that channel: the first value sent, or the zero value
  \<open>nil\<close> of a closed channel.
\<close>

definition receive :: "error list \<Rightarrow> error option" where
  "receive vs = (case vs of [] \<Rightarrow> None | e # _ \<Rightarrow> Some e)"

datatype pinged = Timeout | Received "error option"

text \<open>One round of the monitor: what the request does and the draw of the \<open>select\<close>.\<close>

record probe =
  request :: sent
  pick :: nat

text \<open>
  The monitor: the clock, the times at which a ping request was sent, the store of
  connections, and whether the loop has returned (and its deferred function run).
\<close>

record monitor =
  now :: nat
  pings :: "nat list"
  closedConns :: conns
  exited :: bool

text \<open>
  \<open>t.Config.KeepAlive\<close> as the time \<open>time.Sleep\<close> and \<open>time.After\<close> take: a duration
  that is not positive makes the one return and the other fire at once.
\<close>

definition interval :: "Tunnel \<Rightarrow> nat" where
  "interval t = nat (sint (KeepAlive (Config t)))"

text \<open>The deferred function of \<open>keepAliveLoop\<close>; the result of \<open>Close\<close> is dropped.\<close>

definition teardown :: "ssh_Conn \<Rightarrow> monitor \<Rightarrow> monitor" where
  "teardown sshConn m =
     m\<lparr>closedConns := snd (conn_Close sshConn None (closedConns m)), exited := True\<rparr>"

text \<open>
  \<open>keepAliveLoop\<close> over the rounds the surroundings answer. The loop has no exit of
  its own: when the rounds are used up the monitor is still running.
\<close>

fun keepAliveLoop :: "Tunnel \<Rightarrow> ssh_Conn \<Rightarrow> probe list \<Rightarrow> monitor \<Rightarrow> monitor" where
  "keepAliveLoop t sshConn [] m = m"
| "keepAliveLoop t sshConn (p # ps) m =
     (let k = interval t;
          m1 = m\<lparr>now := now m + k\<rparr>;
          m2 = m1\<lparr>pings := pings m1 @ [now m1]\<rparr>;
          cs = [(Timeout, k)]
               @ (case KeepAliveChan (request p) of
                    Some (d, vs) \<Rightarrow> [(Received (receive vs), d)] | None \<Rightarrow> [])
      in case go_select cs (pick p) of
           Some (Timeout, d) \<Rightarrow> teardown sshConn (m2\<lparr>now := now m2 + d\<rparr>)
         | Some (Received err, d) \<Rightarrow>
             (if err \<noteq> None then teardown sshConn (m2\<lparr>now := now m2 + d\<rparr>)
              else keepAliveLoop t sshConn ps (m2\<lparr>now := now m2 + d\<rparr>))
         | None \<Rightarrow> m2)"

text \<open>
  Successive times are at least one and at most two intervals \<open>k\<close> apart: the sleep
  of one interval, after a wait of at most one.
\<close>

fun ticking :: "nat \<Rightarrow> nat list \<Rightarrow> bool" where
  "ticking k [] = True"
| "ticking k [x] = True"
| "ticking k (x # y # ys) = (x + k \<le> y \<and> y \<le> x + 2 * k \<and> ticking k (y # ys))"

text \<open>
  A round is answered when the \<open>select\<close> of \<open>keepAliveLoop\<close> receives nil: the
  request returns without error, with an empty payload or "pong", before the
  interval \<open>k\<close> has passed, or with it when the draw falls on the reply.
\<close>

definition answered :: "nat \<Rightarrow> probe \<Rightarrow> bool" where
  "answered k p =
     (case request p of
        Hangs \<Rightarrow> False
      | Returns d ok b e \<Rightarrow>
          e = None \<and> (b = [] \<or> b = ''pong'') \<and> (d < k \<or> (d = k \<and> odd (pick p))))"

text \<open>
  The time a request takes to return, and the time the \<open>select\<close> of a round with
  the interval \<open>k\<close> waits: until the request returns, and no longer than \<open>k\<close>.
\<close>

definition latency :: "probe \<Rightarrow> nat" where
  "latency p = (case request p of Hangs \<Rightarrow> 0 | Returns d ok b e \<Rightarrow> d)"

definition waited :: "nat \<Rightarrow> probe \<Rightarrow> nat" where
  "waited k p = (case request p of Hangs \<Rightarrow> k | Returns d ok b e \<Rightarrow> min d k)"

text \<open>
  The rounds of a monitor that starts a round at time \<open>s\<close> and whose requests take
  the times \<open>ds\<close>: each round sleeps \<open>k\<close>, sends its ping and goes on when the reply
  has come. \<open>schedule\<close> gives the times of the pings, \<open>elapsed\<close> the time the rounds
  take.
\<close>

fun schedule :: "nat \<Rightarrow> nat \<Rightarrow> nat list \<Rightarrow> nat list" where
  "schedule k s [] = []"
| "schedule k s (d # ds) = (s + k) # schedule k (s + k + d) ds"

fun elapsed :: "nat \<Rightarrow> probe list \<Rightarrow> nat" where
  "elapsed k [] = 0"
| "elapsed k (p # ps) = k + latency p + elapsed k ps"

definition monitor0 :: "conns \<Rightarrow> monitor" where
  "monitor0 closed = \<lparr>now = 0, pings = [], closedConns = closed, exited = False\<rparr>"

subsection \<open>BindRemotes\<close>

text \<open>
  Modelled from the spec: \<open>NewProxy\<close> and the type \<open>Proxy\<close> are declared outside
  tunnel.go, \<open>settings.Remote\<close> in another package. A remote is a value of any type
  \<open>'r\<close>, a proxy unit a value of any type \<open>'p\<close>, and \<open>NewProxy\<close> is an argument of the
  model: from the index and the remote it is called with it gives an error
  (\<open>Inl\<close>) or the unit built.

  The loop of lines 156 to 163, over the remotes still to come; \<open>proxies\<close> are the
  units built so far. It returns the tunnel with the error that ended it or with
  all the units.
\<close>

fun build :: "(64 word \<Rightarrow> 'r \<Rightarrow> error + 'p) \<Rightarrow> 'r list \<Rightarrow> Tunnel \<Rightarrow> 'p list
    \<Rightarrow> Tunnel \<times> (error + 'p list)" where
  "build NewProxy [] t proxies = (t, Inr proxies)"
| "build NewProxy (remote # remotes) t proxies =
     (case NewProxy (proxyCount t) remote of
        Inl e \<Rightarrow> (t, Inl e)
      | Inr p \<Rightarrow> build NewProxy remotes (t\<lparr>proxyCount := proxyCount t + 1\<rparr>) (proxies @ [p]))"

text \<open>
  Modelled from the spec: the group of \<open>golang.org/x/sync/errgroup\<close> is the shared
  cancellable scope of section 4.4. It counts the units that were started and have
  not returned, keeps the first non-nil error a unit returned, and cancels the
  context its units share when that error arrives and when \<open>Wait\<close> returns;
  \<open>cancelled\<close> tells whether the group has done so. \<open>Wait\<close> blocks while a unit has
  not returned (\<open>None\<close>).
\<close>

record errgroup =
  unreturned :: nat
  first_error :: "error option"
  cancelled :: bool

definition WithContext :: errgroup where
  "WithContext = \<lparr>unreturned = 0, first_error = None, cancelled = False\<rparr>"

definition eg_Go :: "errgroup \<Rightarrow> errgroup" where
  "eg_Go g = g\<lparr>unreturned := unreturned g + 1\<rparr>"

text \<open>A unit that was started returns \<open>e\<close>.\<close>

definition eg_returns :: "error option \<Rightarrow> errgroup \<Rightarrow> errgroup" where
  "eg_returns e g =
     (if unreturned g = 0 then g
      else if e \<noteq> None \<and> first_error g = None
      then g\<lparr>unreturned := unreturned g - 1, first_error := e, cancelled := True\<rparr>
      else g\<lparr>unreturned := unreturned g - 1\<rparr>)"

definition eg_Wait :: "errgroup \<Rightarrow> (error option \<times> errgroup) option" where
  "eg_Wait g =
     (if unreturned g = 0 then Some (first_error g, g\<lparr>cancelled := True\<rparr>) else None)"

text \<open>A call that may block for good, or panic.\<close>

datatype outcome = Blocked | Returned "error option" | Panicked panic

text \<open>
  Modelled from the spec: the type \<open>Proxy\<close> and its field \<open>tcp\<close> are declared
  outside tunnel.go. \<open>tcp_Addr\<close> is an argument of the model: for a unit it gives
  the address that \<open>proxy.tcp.Addr()\<close> returns, and \<open>None\<close> for a unit whose \<open>tcp\<close> is
  nil (a unit that does not listen on tcp), where that call panics.

  The loop of lines 167 to 173, over the units still to come; \<open>running\<close> are the
  units handed to \<open>eg.Go\<close> so far. Line 168 builds the message from
  \<open>proxy.tcp.Addr()\<close> before the unit is started.
\<close>

fun launch :: "('p \<Rightarrow> string option) \<Rightarrow> 'p list \<Rightarrow> errgroup \<Rightarrow> 'p list
    \<Rightarrow> errgroup \<times> 'p list \<times> panic option" where
  "launch tcp_Addr [] eg running = (eg, running, None)"
| "launch tcp_Addr (proxy # proxies) eg running =
     (case tcp_Addr proxy of
        None \<Rightarrow>
          (eg, running, Some (Panic ''invalid memory address or nil pointer dereference''))
      | Some addr \<Rightarrow> launch tcp_Addr proxies (eg_Go eg) (running @ [proxy]))"

text \<open>
  What a call of \<open>BindRemotes\<close> leaves behind: the tunnel, the units started with
  \<open>eg.Go\<close>, the group when one was made, and the outcome.
\<close>

record 'p fanout =
  tunnel :: Tunnel
  units :: "'p list"
  scope :: "errgroup option"
  outcome :: outcome

text \<open>
  \<open>BindRemotes NewProxy tcp_Addr t remotes exits\<close>: \<open>exits\<close> are the values the
  units' \<open>Run\<close> return, in the order in which the units return. \<open>Proxy.Run\<close> is not part of
  tunnel.go; a unit that never returns has no entry. The context passed to
  \<open>BindRemotes\<close> reaches the code only through the units, which return when it is
  cancelled.
\<close>

definition BindRemotes :: "(64 word \<Rightarrow> 'r \<Rightarrow> error + 'p) \<Rightarrow> ('p \<Rightarrow> string option)
    \<Rightarrow> Tunnel \<Rightarrow> 'r list \<Rightarrow> error option list \<Rightarrow> 'p fanout" where
  "BindRemotes NewProxy tcp_Addr t remotes exits =
     (if length remotes = 0
      then \<lparr>tunnel = t, units = [], scope = None,
            outcome = Returned (Some (Error ''no remotes''))\<rparr>
      else if \<not> Inbound (Config t)
      then \<lparr>tunnel = t, units = [], scope = None,
            outcome = Returned (Some (Error ''inbound connections blocked''))\<rparr>
      else case build NewProxy remotes t [] of
        (t', Inl e) \<Rightarrow>
          \<lparr>tunnel = t', units = [], scope = None, outcome = Returned (Some e)\<rparr>
      | (t', Inr proxies) \<Rightarrow>
          (case launch tcp_Addr proxies WithContext [] of
             (eg, running, Some pn) \<Rightarrow>
               \<lparr>tunnel = t', units = running, scope = Some eg, outcome = Panicked pn\<rparr>
           | (eg, running, None) \<Rightarrow>
               (let eg' = fold eg_returns exits eg
                in case eg_Wait eg' of
                     None \<Rightarrow>
                       \<lparr>tunnel = t', units = running, scope = Some eg', outcome = Blocked\<rparr>
                   | Some (e, eg'') \<Rightarrow>
                       \<lparr>tunnel = t', units = running, scope = Some eg'',
                        outcome = Returned e\<rparr>)))"

subsection \<open>A tunnel's lifetime\<close>

text \<open>
  The calls made on a tunnel, each with what its surroundings answer. \<open>getSSH\<close>,
  \<open>Close\<close> and \<open>keepAliveLoop\<close> only read the tunnel; a \<open>BindSSH\<close> that panics writes
  nothing, and a \<open>BindRemotes\<close> that panics has made its writes before.
\<close>

datatype ('r, 'p) call =
    CallBindSSH ssh_Conn "error option"
  | CallBindRemotes "64 word \<Rightarrow> 'r \<Rightarrow> error + 'p" "'p \<Rightarrow> string option" "'r list"
      "error option list"
  | CallGetSSH "context" surroundings
  | CallClose "context" surroundings "error option"
  | CallKeepAliveLoop ssh_Conn "probe list"

fun after :: "Tunnel \<Rightarrow> ('r, 'p) call \<Rightarrow> Tunnel" where
  "after t (CallBindSSH c wait) =
     (case BindSSH t c wait of Inl _ \<Rightarrow> t | Inr b \<Rightarrow> final b)"
| "after t (CallBindRemotes NewProxy tcp_Addr remotes exits) =
     tunnel (BindRemotes NewProxy tcp_Addr t remotes exits)"
| "after t (CallGetSSH ctx sur) = t"
| "after t (CallClose ctx sur r) = t"
| "after t (CallKeepAliveLoop c ps) = t"

definition lifetime :: "Config \<Rightarrow> ('r, 'p) call list \<Rightarrow> Tunnel" where
  "lifetime c calls = foldl after (New c) calls"

text \<open>
  The number of units the loop of \<open>BindRemotes\<close> builds: the remotes before the
  first one \<open>NewProxy\<close> refuses, when called with the indices \<open>n\<close>, \<open>n + 1\<close>, ...
\<close>

fun built :: "(64 word \<Rightarrow> 'r \<Rightarrow> error + 'p) \<Rightarrow> 64 word \<Rightarrow> 'r list \<Rightarrow> nat" where
  "built NewProxy n [] = 0"
| "built NewProxy n (remote # remotes) =
     (case NewProxy n remote of Inl e \<Rightarrow> 0 | Inr p \<Rightarrow> Suc (built NewProxy (n + 1) remotes))"

text \<open>
  The number of units a call builds, and the number built over a sequence of calls
  that starts on the tunnel \<open>t\<close>.
\<close>

fun grown :: "Tunnel \<Rightarrow> ('r, 'p) call \<Rightarrow> nat" where
  "grown t (CallBindRemotes NewProxy tcp_Addr remotes exits) =
     (if remotes = [] \<or> \<not> Inbound (Config t) then 0
      else built NewProxy (proxyCount t) remotes)"
| "grown t (CallBindSSH c wait) = 0"
| "grown t (CallGetSSH ctx sur) = 0"
| "grown t (CallClose ctx sur r) = 0"
| "grown t (CallKeepAliveLoop c ps) = 0"

fun total_built :: "Tunnel \<Rightarrow> ('r, 'p) call list \<Rightarrow> nat" where
  "total_built t [] = 0"
| "total_built t (call # calls) = grown t call + total_built (after t call) calls"

text \<open>The first non-nil error of a list of returned values, nil when there is none.\<close>

definition first_failure :: "error option list \<Rightarrow> error option" where
  "first_failure es = (case List.find (\<lambda>e. e \<noteq> None) es of None \<Rightarrow> None | Some e \<Rightarrow> e)"

subsection \<open>A tunnel used in the examples\<close>

definition cfg5 :: Config where
  "cfg5 = \<lparr>Inbound = True, Outbound = True, Socks = False, KeepAlive = 5\<rparr>"

definition never :: "context" where
  "never = \<lparr>done_after = None\<rparr>"

definition quiet :: surroundings where
  "quiet = \<lparr>environ = Map.empty, gate_opens = None, active_then = None, draw = 0\<rparr>"

text \<open>A \<open>NewProxy\<close> that builds every unit; the unit is the index it was given.\<close>

definition accept :: "64 word \<Rightarrow> nat \<Rightarrow> error + 64 word" where
  "accept index remote = Inr index"

text \<open>
  Units that all listen on tcp, and units of which the one with index 1 does not
  (the unit of a udp or stdio remote).
\<close>

definition all_tcp :: "64 word \<Rightarrow> string option" where
  "all_tcp proxy = Some ''0.0.0.0:28080''"

definition udp_second :: "64 word \<Rightarrow> string option" where
  "udp_second proxy = (if proxy = 1 then None else Some ''0.0.0.0:28080'')"

text \<open>A round whose request returns "pong" after 2 nanoseconds, and one that hangs.\<close>

definition pong2 :: probe where
  "pong2 = \<lparr>request = Returns 2 True ''pong'' None, pick = 0\<rparr>"

definition hang :: probe where
  "hang = \<lparr>request = Hangs, pick = 0\<rparr>"

text \<open>
  The tunnel after a \<open>BindSSH\<close> whose context was cancelled: the call has returned
  and the watcher it started has then run \<open>DoneAll\<close>.
\<close>

definition released :: Tunnel where
  "released =
     fst (ctxWatcher (after (New cfg5) (CallBindSSH 1 None :: (nat, 64 word) call)) 1 None {})"

text \<open>A tunnel whose \<open>proxyCount\<close> is the largest \<open>int\<close>.\<close>

definition full :: Tunnel where
  "full = (New cfg5)\<lparr>proxyCount := 9223372036854775807\<rparr>"

section \<open>Properties\<close>

subsection \<open>Auxiliary facts\<close>

lemma go_select_two:
  "go_select [(a, k), (b, d)] n =
     Some (if k < d then (a, k) else if d < k then (b, d)
           else if even n then (a, k) else (b, d))"
proof -
  have two: "Suc (Suc 0) = 2" by simp
  have ev: "even n \<Longrightarrow> n mod 2 = 0" and od: "odd n \<Longrightarrow> n mod 2 = Suc 0"
    by (simp_all add: odd_iff_mod_2_eq_one)
  show ?thesis
    by (cases "even n") (auto simp: go_select_def Let_def two ev od)
qed

lemma go_select_one: "go_select [(a, k)] n = Some (a, k)"
  by (simp add: go_select_def)

lemma receive_KeepAliveChan:
  "KeepAliveChan (Returns d ok b e) = Some (d, vs) \<Longrightarrow>
     receive vs = (case e of Some x \<Rightarrow> Some x
                   | None \<Rightarrow> if b \<noteq> [] \<and> b \<noteq> ''pong''
                             then Some (Error ''strange ping response'') else None)"
  by (auto simp: KeepAliveChan_def receive_def split: option.splits)

lemma keepAliveLoop_step:
  "keepAliveLoop t c (p # ps) m =
     (let k = interval t;
          m2 = m\<lparr>now := now m + k, pings := pings m @ [now m + k]\<rparr>
      in case request p of
           Hangs \<Rightarrow> teardown c (m2\<lparr>now := now m2 + k\<rparr>)
         | Returns d ok b e \<Rightarrow>
             if k < d \<or> (k = d \<and> even (pick p)) then teardown c (m2\<lparr>now := now m2 + k\<rparr>)
             else if e \<noteq> None \<or> (b \<noteq> [] \<and> b \<noteq> ''pong'')
             then teardown c (m2\<lparr>now := now m2 + d\<rparr>)
             else keepAliveLoop t c ps (m2\<lparr>now := now m2 + d\<rparr>))"
  by (auto simp: Let_def go_select_two go_select_one KeepAliveChan_def receive_def
      split: sent.splits option.splits)


declare keepAliveLoop.simps(2) [simp del]

lemma ticking_Cons:
  "ticking k (x # xs) \<longleftrightarrow> (xs = [] \<or> (x + k \<le> hd xs \<and> hd xs \<le> x + 2 * k \<and> ticking k xs))"
  by (cases xs) auto

lemma keepAliveLoop_pings:
  "\<exists>new. pings (keepAliveLoop t c ps m) = pings m @ new
      \<and> length new \<le> length ps
      \<and> ticking (interval t) new
      \<and> (new = [] \<longrightarrow> keepAliveLoop t c ps m = m)
      \<and> (new \<noteq> [] \<longrightarrow> hd new = now m + interval t
            \<and> last new \<le> now (keepAliveLoop t c ps m)
            \<and> now (keepAliveLoop t c ps m) \<le> last new + interval t)"
proof (induction ps arbitrary: m)
  case Nil
  show ?case by simp
next
  case (Cons p ps)
  define k where "k = interval t"
  define x where "x = now m + k"
  define m2 where "m2 = m\<lparr>now := x, pings := pings m @ [x]\<rparr>"
  have stop: "?case" if r: "keepAliveLoop t c (p # ps) m = teardown c (m2\<lparr>now := now m2 + d\<rparr>)"
    and d: "d \<le> k" for d
  proof -
    have "pings (keepAliveLoop t c (p # ps) m) = pings m @ [x]"
      by (simp add: r teardown_def m2_def)
    moreover have "now (keepAliveLoop t c (p # ps) m) = x + d"
      by (simp add: r teardown_def m2_def)
    ultimately show ?thesis using d
      by (intro exI [of _ "[x]"]) (simp add: x_def k_def)
  qed
  have go: "?case" if r: "keepAliveLoop t c (p # ps) m = keepAliveLoop t c ps (m2\<lparr>now := now m2 + d\<rparr>)"
    and d: "d \<le> k" for d
  proof -
    define m3 where "m3 = m2\<lparr>now := now m2 + d\<rparr>"
    from Cons.IH [of m3] obtain new where
      p: "pings (keepAliveLoop t c ps m3) = pings m3 @ new"
      and l: "length new \<le> length ps"
      and tk: "ticking (interval t) new"
      and e: "new = [] \<longrightarrow> keepAliveLoop t c ps m3 = m3"
      and n: "new \<noteq> [] \<longrightarrow> hd new = now m3 + interval t
            \<and> last new \<le> now (keepAliveLoop t c ps m3)
            \<and> now (keepAliveLoop t c ps m3) \<le> last new + interval t"
      by blast
    have m3: "pings m3 = pings m @ [x]" "now m3 = x + d"
      by (simp_all add: m3_def m2_def)
    have r': "keepAliveLoop t c (p # ps) m = keepAliveLoop t c ps m3"
      by (simp add: r m3_def)
    have "pings (keepAliveLoop t c (p # ps) m) = pings m @ (x # new)"
      by (simp add: r' p m3)
    moreover have "ticking (interval t) (x # new)"
      using tk n d m3 by (auto simp: ticking_Cons k_def)
    moreover have "last (x # new) \<le> now (keepAliveLoop t c (p # ps) m)
        \<and> now (keepAliveLoop t c (p # ps) m) \<le> last (x # new) + interval t"
    proof (cases "new = []")
      case True
      with e r' m3 d show ?thesis by (simp add: k_def)
    next
      case False
      with n r' show ?thesis by simp
    qed
    ultimately show ?thesis using l
      by (intro exI [of _ "x # new"]) (simp add: x_def k_def)
  qed
  show ?case
  proof (cases "request p")
    case Hangs
    then have "keepAliveLoop t c (p # ps) m = teardown c (m2\<lparr>now := now m2 + k\<rparr>)"
      by (auto simp: keepAliveLoop_step Let_def m2_def x_def k_def)
    then show ?thesis by (rule stop) simp
  next
    case (Returns d ok b e)
    consider (late) "k < d \<or> (k = d \<and> even (pick p))"
      | (bad) "\<not> (k < d \<or> (k = d \<and> even (pick p)))" "e \<noteq> None \<or> (b \<noteq> [] \<and> b \<noteq> ''pong'')"
      | (good) "\<not> (k < d \<or> (k = d \<and> even (pick p)))" "\<not> (e \<noteq> None \<or> (b \<noteq> [] \<and> b \<noteq> ''pong''))"
      by blast
    then show ?thesis
    proof cases
      case late
      with Returns have "keepAliveLoop t c (p # ps) m = teardown c (m2\<lparr>now := now m2 + k\<rparr>)"
        by (auto simp: keepAliveLoop_step Let_def m2_def x_def k_def)
      then show ?thesis by (rule stop) simp
    next
      case bad
      with Returns have "keepAliveLoop t c (p # ps) m = teardown c (m2\<lparr>now := now m2 + d\<rparr>)"
        by (auto simp: keepAliveLoop_step Let_def m2_def x_def k_def)
      moreover from bad have "d \<le> k" by auto
      ultimately show ?thesis by (rule stop)
    next
      case good
      with Returns have "keepAliveLoop t c (p # ps) m = keepAliveLoop t c ps (m2\<lparr>now := now m2 + d\<rparr>)"
        by (auto simp: keepAliveLoop_step Let_def m2_def x_def k_def)
      moreover from good have "d \<le> k" by auto
      ultimately show ?thesis by (rule go)
    qed
  qed
qed

lemma keepAliveLoop_fails:
  assumes "request p = Hangs
     \<or> (\<exists>d ok b e. request p = Returns d ok b e
          \<and> (e \<noteq> None \<or> (b \<noteq> [] \<and> b \<noteq> ''pong'') \<or> interval t < d))"
  shows "\<exists>d \<le> interval t. keepAliveLoop t c (p # ps) m =
      \<lparr>now = now m + interval t + d, pings = pings m @ [now m + interval t],
       closedConns = insert c (closedConns m), exited = True\<rparr>"
proof (cases "request p")
  case Hangs
  then show ?thesis
    by (intro exI [of _ "interval t"])
      (simp add: keepAliveLoop_step Let_def teardown_def conn_Close_def)
next
  case (Returns d ok b e)
  with assms have bad: "e \<noteq> None \<or> (b \<noteq> [] \<and> b \<noteq> ''pong'') \<or> interval t < d"
    by simp
  show ?thesis
  proof (cases "interval t < d \<or> (interval t = d \<and> even (pick p))")
    case True
    with Returns show ?thesis
      by (intro exI [of _ "interval t"])
        (auto simp: keepAliveLoop_step Let_def teardown_def conn_Close_def)
  next
    case False
    with Returns bad show ?thesis
      by (intro exI [of _ d])
        (auto simp: keepAliveLoop_step Let_def teardown_def conn_Close_def)
  qed
qed

lemma keepAliveLoop_times_out:
  assumes "request p = Hangs \<or> (\<exists>d ok b e. request p = Returns d ok b e \<and> interval t < d)"
  shows "keepAliveLoop t c (p # ps) m =
      \<lparr>now = now m + interval t + interval t, pings = pings m @ [now m + interval t],
       closedConns = insert c (closedConns m), exited = True\<rparr>"
  using assms
  by (auto simp: keepAliveLoop_step Let_def teardown_def conn_Close_def split: sent.splits)

lemma keepAliveLoop_continues:
  assumes "request p = Returns d ok b None" and "b = [] \<or> b = ''pong''"
    and "d < interval t \<or> (d = interval t \<and> odd (pick p))"
  shows "keepAliveLoop t c (p # ps) m =
      keepAliveLoop t c ps
        (m\<lparr>pings := pings m @ [now m + interval t], now := now m + interval t + d\<rparr>)"
  using assms by (auto simp: keepAliveLoop_step Let_def)

lemma answered_iff:
  "answered k p \<longleftrightarrow>
     (\<exists>d ok b. request p = Returns d ok b None \<and> (b = [] \<or> b = ''pong'')
        \<and> (d < k \<or> (d = k \<and> odd (pick p))))"
  by (auto simp: answered_def split: sent.splits)

lemma keepAliveLoop_answered:
  "list_all (answered (interval t)) good \<Longrightarrow>
     keepAliveLoop t c (good @ rest) m =
       keepAliveLoop t c rest
         (m\<lparr>pings := pings m @ schedule (interval t) (now m) (map latency good),
            now := now m + elapsed (interval t) good\<rparr>)"
proof (induction good arbitrary: m)
  case Nil
  show ?case by simp
next
  case (Cons p good)
  from Cons.prems have p: "answered (interval t) p"
    and good: "list_all (answered (interval t)) good"
    by simp_all
  from p obtain d ok b where r: "request p = Returns d ok b None" "b = [] \<or> b = ''pong''"
    "d < interval t \<or> (d = interval t \<and> odd (pick p))"
    by (auto simp: answered_iff)
  have l: "latency p = d" by (simp add: latency_def r(1))
  have "keepAliveLoop t c ((p # good) @ rest) m =
      keepAliveLoop t c (good @ rest)
        (m\<lparr>pings := pings m @ [now m + interval t], now := now m + interval t + d\<rparr>)"
    using keepAliveLoop_continues [OF r, of c "good @ rest" m] by simp
  also have "\<dots> = keepAliveLoop t c rest
         (m\<lparr>pings := pings m @ schedule (interval t) (now m) (map latency (p # good)),
            now := now m + elapsed (interval t) (p # good)\<rparr>)"
    by (simp add: Cons.IH [OF good] l add.assoc)
  finally show ?case .
qed

lemma keepAliveLoop_unanswered:
  assumes "\<not> answered (interval t) p"
  shows "keepAliveLoop t c (p # ps) m =
      \<lparr>now = now m + interval t + waited (interval t) p,
       pings = pings m @ [now m + interval t],
       closedConns = insert c (closedConns m), exited = True\<rparr>"
proof (cases "request p")
  case Hangs
  then show ?thesis
    by (simp add: keepAliveLoop_step Let_def teardown_def conn_Close_def waited_def)
next
  case (Returns d ok b e)
  show ?thesis
  proof (cases "interval t < d \<or> (interval t = d \<and> even (pick p))")
    case True
    with Returns show ?thesis
      by (auto simp: keepAliveLoop_step Let_def teardown_def conn_Close_def waited_def)
  next
    case False
    with Returns assms have bad: "e \<noteq> None \<or> (b \<noteq> [] \<and> b \<noteq> ''pong'')"
      by (auto simp: answered_def)
    with Returns False show ?thesis
      by (auto simp: keepAliveLoop_step Let_def teardown_def conn_Close_def waited_def)
  qed
qed

lemma waited_le: "waited k p \<le> k"
  by (simp add: waited_def split: sent.splits)

lemma waited_answered: "answered k p \<Longrightarrow> waited k p = latency p"
  by (auto simp: answered_def waited_def latency_def split: sent.splits)

lemma interval_cfg5: "interval (New cfg5) = 5"
  by (simp add: interval_def New_def cfg5_def)

lemma earliest_le: "x \<in> set xs \<Longrightarrow> earliest xs \<le> x"
  by (induction xs rule: earliest.induct) auto

lemma earliest_in: "xs \<noteq> [] \<Longrightarrow> earliest xs \<in> set xs"
  by (induction xs rule: earliest.induct) (auto simp: min_def)

lemma go_select_first:
  assumes "go_select cs n = Some (x, d)"
  shows "(x, d) \<in> set cs \<and> (\<forall>y \<in> set cs. d \<le> snd y)"
proof -
  define ready where "ready = filter (\<lambda>ct. snd ct = earliest (map snd cs)) cs"
  from assms have ne: "cs \<noteq> []" by (auto simp: go_select_def)
  then have "earliest (map snd cs) \<in> snd ` set cs"
    using earliest_in [of "map snd cs"] by simp
  then have "ready \<noteq> []"
    by (force simp: ready_def filter_empty_conv)
  then have "n mod length ready < length ready" by simp
  then have "ready ! (n mod length ready) \<in> set ready" by (rule nth_mem)
  moreover from assms ne have "(x, d) = ready ! (n mod length ready)"
    by (simp add: go_select_def ready_def Let_def)
  ultimately have "(x, d) \<in> set ready" by simp
  then have "(x, d) \<in> set cs" and "d = earliest (map snd cs)"
    by (auto simp: ready_def)
  then show ?thesis using earliest_le [of _ "map snd cs"] by auto
qed

lemma go_select_Some: "cs \<noteq> [] \<Longrightarrow> \<exists>x d. go_select cs n = Some (x, d)"
  by (cases "go_select cs n") (auto simp: go_select_def Let_def)

lemma getSSH_blocked:
  assumes "\<not> isDone ctx" and "activeConn t = None" and "getSSH t ctx sur = (r, d)"
  shows "d \<le> wait_for sur
    \<and> (\<forall>a. done_after ctx = Some a \<longrightarrow> d \<le> a)
    \<and> (\<forall>g. activatingConnWait t sur = Some g \<longrightarrow> d \<le> g)
    \<and> ((done_after ctx = Some d \<and> r = None) \<or> (d = wait_for sur \<and> r = None)
        \<or> (activatingConnWait t sur = Some d \<and> r = reread t sur))"
proof -
  define cs where "cs = (case done_after ctx of Some a \<Rightarrow> [(CtxDone, a)] | None \<Rightarrow> [])
                   @ [(TimeAfter, wait_for sur)]
                   @ (case activatingConnWait t sur of
                        Some g \<Rightarrow> [(ActivatingConnWait, g)] | None \<Rightarrow> [])"
  have "cs \<noteq> []" by (simp add: cs_def)
  then obtain x e where sel: "go_select cs (draw sur) = Some (x, e)"
    using go_select_Some by blast
  from go_select_first [OF sel] have mem: "(x, e) \<in> set cs"
    and least: "\<forall>y \<in> set cs. e \<le> snd y" by auto
  from assms sel have res: "(r, d) = (case x of CtxDone \<Rightarrow> (None, e) | TimeAfter \<Rightarrow> (None, e)
      | ActivatingConnWait \<Rightarrow> (reread t sur, e))"
    by (simp add: getSSH_def cs_def wait_for_def)
  then have d: "d = e" by (auto split: waiting.splits)
  have b1: "d \<le> wait_for sur" using least d by (simp add: cs_def)
  have b2: "\<forall>a. done_after ctx = Some a \<longrightarrow> d \<le> a" using least d by (auto simp: cs_def)
  have b3: "\<forall>g. activatingConnWait t sur = Some g \<longrightarrow> d \<le> g"
    using least d by (auto simp: cs_def)
  have b4: "(done_after ctx = Some d \<and> r = None) \<or> (d = wait_for sur \<and> r = None)
        \<or> (activatingConnWait t sur = Some d \<and> r = reread t sur)"
    using mem res d by (cases x) (auto simp: cs_def split: option.splits)
  from b1 b2 b3 b4 show ?thesis by blast
qed

lemma build_count:
  "build NewProxy rs t acc = (t', res) \<Longrightarrow>
     t' = t\<lparr>proxyCount := proxyCount t + of_nat (built NewProxy (proxyCount t) rs)\<rparr>"
proof (induction rs arbitrary: t acc)
  case Nil
  then show ?case by simp
next
  case (Cons r rs)
  show ?case
  proof (cases "NewProxy (proxyCount t) r")
    case (Inl e)
    with Cons.prems show ?thesis by simp
  next
    case (Inr p)
    with Cons.prems have "build NewProxy rs (t\<lparr>proxyCount := proxyCount t + 1\<rparr>) (acc @ [p]) = (t', res)"
      by simp
    from Cons.IH [OF this] Inr show ?thesis by (simp add: add.assoc)
  qed
qed

lemma build_units:
  "build NewProxy rs t acc = (t', Inr ps) \<Longrightarrow>
     built NewProxy (proxyCount t) rs = length rs
     \<and> (\<exists>new. ps = acc @ new \<and> length new = length rs
          \<and> (\<forall>i < length rs. NewProxy (proxyCount t + of_nat i) (rs ! i) = Inr (new ! i)))"
proof (induction rs arbitrary: t acc)
  case Nil
  then show ?case by simp
next
  case (Cons r rs)
  show ?case
  proof (cases "NewProxy (proxyCount t) r")
    case (Inl e)
    with Cons.prems show ?thesis by simp
  next
    case (Inr p)
    with Cons.prems have "build NewProxy rs (t\<lparr>proxyCount := proxyCount t + 1\<rparr>) (acc @ [p]) = (t', Inr ps)"
      by simp
    from Cons.IH [OF this] obtain new where
      n: "built NewProxy (proxyCount t + 1) rs = length rs"
      and new: "ps = (acc @ [p]) @ new" "length new = length rs"
        "\<forall>i < length rs. NewProxy (proxyCount t + 1 + of_nat i) (rs ! i) = Inr (new ! i)"
      by auto
    have "\<forall>i < length (r # rs). NewProxy (proxyCount t + of_nat i) ((r # rs) ! i) = Inr ((p # new) ! i)"
    proof (intro allI impI)
      fix i assume "i < length (r # rs)"
      then show "NewProxy (proxyCount t + of_nat i) ((r # rs) ! i) = Inr ((p # new) ! i)"
        using Inr new(3) by (cases i) (auto simp: add.assoc)
    qed
    with n new(1,2) Inr show ?thesis
      by (intro conjI exI [of _ "p # new"]) simp_all
  qed
qed

lemma launch_eq:
  "launch tcp_Addr ps eg st =
     (eg\<lparr>unreturned := unreturned eg + length (takeWhile (\<lambda>p. tcp_Addr p \<noteq> None) ps)\<rparr>,
      st @ takeWhile (\<lambda>p. tcp_Addr p \<noteq> None) ps,
      if \<forall>p \<in> set ps. tcp_Addr p \<noteq> None then None
      else Some (Panic ''invalid memory address or nil pointer dereference''))"
  by (induction ps arbitrary: eg st) (auto simp: eg_Go_def)

lemma after_count: "proxyCount (after t call) = proxyCount t + of_nat (grown t call)"
proof (cases call)
  case (CallBindSSH c wait)
  then show ?thesis by (auto simp: BindSSH_def Let_def)
next
  case (CallBindRemotes NewProxy tcp_Addr remotes exits)
  obtain t' res where b: "build NewProxy remotes t [] = (t', res)"
    by (cases "build NewProxy remotes t []")
  from build_count [OF b] b CallBindRemotes show ?thesis
    by (auto simp: BindRemotes_def launch_eq Let_def split: sum.splits option.splits)
qed simp_all

lemma lifetime_count: "proxyCount (foldl after t calls) = proxyCount t + of_nat (total_built t calls)"
  by (induction calls arbitrary: t) (simp_all add: after_count add.assoc)

lemma total_built_append: "total_built t (xs @ ys) = total_built t xs + total_built (foldl after t xs) ys"
  by (induction xs arbitrary: t) simp_all

lemma sint_of_nat_small: "int n < 2 ^ 63 \<Longrightarrow> sint (of_nat n :: 64 word) = int n"
  by (simp add: signed_of_nat signed_take_bit_int_eq_self)

lemma fold_eg_Go:
  "fold (\<lambda>proxy g. eg_Go g) ps g = g\<lparr>unreturned := unreturned g + length ps\<rparr>"
  by (induction ps arbitrary: g) (simp_all add: eg_Go_def)

lemma first_failure_simps [simp]:
  "first_failure [] = None"
  "first_failure (None # es) = first_failure es"
  "first_failure (Some e # es) = Some e"
  by (simp_all add: first_failure_def)

lemma first_failure_None: "first_failure es = None \<longleftrightarrow> (\<forall>e \<in> set es. e = None)"
  by (induction es) (auto simp: first_failure_def)

lemma fold_eg_returns:
  "fold eg_returns es g =
     g\<lparr>unreturned := unreturned g - length es,
       first_error := (case first_error g of
                         Some x \<Rightarrow> Some x
                       | None \<Rightarrow> first_failure (take (unreturned g) es)),
       cancelled := cancelled g
          \<or> (first_error g = None \<and> first_failure (take (unreturned g) es) \<noteq> None)\<rparr>"
proof (induction es arbitrary: g)
  case Nil
  then show ?case by (simp split: option.splits)
next
  case (Cons e es)
  show ?case
  proof (cases "unreturned g")
    case 0
    then have "eg_returns e g = g" by (simp add: eg_returns_def)
    with 0 Cons.IH [of g] show ?thesis by (simp split: option.splits)
  next
    case (Suc n)
    have step: "fold eg_returns (e # es) g = fold eg_returns es (eg_returns e g)"
      by simp
    show ?thesis
      unfolding step Cons.IH
      by (cases e; cases "first_error g") (auto simp: eg_returns_def Suc)
  qed
qed

subsection \<open>The claims\<close>

text \<open>
  C1, as stated, fails: the pings do not follow a tick of one interval. With an
  interval of 5 and replies that come after 2, the ticks of the interval are at 5,
  10, 15 and 20, and the monitor has sent its pings at 5, 12 and 19 when its third
  round ends at 21. The sleep of line 189 starts when the reply to the ping before
  has come, so a round takes the interval and the time of the reply.
\<close>

theorem keepAliveLoop_tick_counterexample:
  "interval (New cfg5) = 5
   \<and> keepAliveLoop (New cfg5) 4 [pong2, pong2, pong2] (monitor0 {})
       = \<lparr>now = 21, pings = [5, 12, 19], closedConns = {}, exited = False\<rparr>"
  by (simp add: keepAliveLoop_step interval_cfg5 monitor0_def pong2_def)

text \<open>
  C1, amended. \<open>BindSSH\<close> starts the keepalive monitor exactly when \<open>KeepAlive\<close> is
  positive, and the interval is then \<open>KeepAlive\<close>. The monitor works in rounds: a
  round sleeps one interval, sends one ping request and waits for the reply at most
  one interval. While the rounds are answered, the pings are sent exactly at the
  times of \<open>schedule\<close>: the first one interval after the start, each later one an
  interval after the reply to the one before has come, which is at least one and at
  most two intervals after the ping before; the monitor has not exited and has
  closed nothing. The first round that is not answered sends its ping, closes the
  connection and exits when its wait ends, at most one interval after that ping,
  and no round follows.
  When the request of a round has not returned within one interval of the ping, the
  monitor closes the connection and exits exactly one interval after the ping.
  Closing a connection that is closed leaves the store as it is, and so does a
  second teardown.
\<close>

theorem keepAliveLoop_rounds:
  "(\<forall>b. BindSSH t c wait = Inr b \<longrightarrow>
       (KeepAliveLoop c \<in> set (started b)) = (0 < sint (KeepAlive (Config t))))
   \<and> (0 < sint (KeepAlive (Config t)) \<longrightarrow> int (interval t) = sint (KeepAlive (Config t)))
   \<and> (list_all (answered (interval t)) good \<longrightarrow>
        keepAliveLoop t c good m =
          m\<lparr>pings := pings m @ schedule (interval t) (now m) (map latency good),
            now := now m + elapsed (interval t) good\<rparr>
        \<and> (\<not> answered (interval t) p \<longrightarrow>
             exited (keepAliveLoop t c (good @ p # rest) m)
             \<and> closedConns (keepAliveLoop t c (good @ p # rest) m) = insert c (closedConns m)
             \<and> pings (keepAliveLoop t c (good @ p # rest) m) =
                 pings m @ schedule (interval t) (now m) (map latency good)
                   @ [now m + elapsed (interval t) good + interval t]
             \<and> now (keepAliveLoop t c (good @ p # rest) m)
                 = now m + elapsed (interval t) good + interval t + waited (interval t) p))
   \<and> waited (interval t) p \<le> interval t
   \<and> (answered (interval t) p \<longrightarrow> waited (interval t) p = latency p)
   \<and> (request q = Hangs \<or> (\<exists>d ok b e. request q = Returns d ok b e \<and> interval t < d) \<longrightarrow>
        \<not> answered (interval t) q
        \<and> keepAliveLoop t c (q # rest) m =
          \<lparr>now = now m + interval t + interval t, pings = pings m @ [now m + interval t],
           closedConns = insert c (closedConns m), exited = True\<rparr>)
   \<and> ticking (interval t) (pings (keepAliveLoop t c ps (monitor0 closed)))
   \<and> (pings (keepAliveLoop t c ps (monitor0 closed)) \<noteq> [] \<longrightarrow>
        hd (pings (keepAliveLoop t c ps (monitor0 closed))) = interval t
        \<and> now (keepAliveLoop t c ps (monitor0 closed))
            \<le> last (pings (keepAliveLoop t c ps (monitor0 closed))) + interval t)
   \<and> snd (conn_Close c r' (snd (conn_Close c r closed))) = snd (conn_Close c r closed)
   \<and> teardown c (teardown c m) = teardown c m"
proof -
  have started: "\<forall>b. BindSSH t c wait = Inr b \<longrightarrow>
       (KeepAliveLoop c \<in> set (started b)) = (0 < sint (KeepAlive (Config t)))"
    by (auto simp: BindSSH_def Let_def split: if_splits)
  have tied: "0 < sint (KeepAlive (Config t)) \<longrightarrow> int (interval t) = sint (KeepAlive (Config t))"
    by (simp add: interval_def)
  have rounds: "keepAliveLoop t c good m =
          m\<lparr>pings := pings m @ schedule (interval t) (now m) (map latency good),
            now := now m + elapsed (interval t) good\<rparr>
        \<and> (\<not> answered (interval t) p \<longrightarrow>
             exited (keepAliveLoop t c (good @ p # rest) m)
             \<and> closedConns (keepAliveLoop t c (good @ p # rest) m) = insert c (closedConns m)
             \<and> pings (keepAliveLoop t c (good @ p # rest) m) =
                 pings m @ schedule (interval t) (now m) (map latency good)
                   @ [now m + elapsed (interval t) good + interval t]
             \<and> now (keepAliveLoop t c (good @ p # rest) m)
                 = now m + elapsed (interval t) good + interval t + waited (interval t) p)"
    if good: "list_all (answered (interval t)) good"
  proof (intro conjI impI)
    show "keepAliveLoop t c good m =
          m\<lparr>pings := pings m @ schedule (interval t) (now m) (map latency good),
            now := now m + elapsed (interval t) good\<rparr>"
      using keepAliveLoop_answered [OF good, of c "[]" m] by simp
  next
    assume bad: "\<not> answered (interval t) p"
    define m' where "m' = m\<lparr>pings := pings m @ schedule (interval t) (now m) (map latency good),
            now := now m + elapsed (interval t) good\<rparr>"
    have r: "keepAliveLoop t c (p # rest) m' =
        \<lparr>now = now m' + interval t + waited (interval t) p,
         pings = pings m' @ [now m' + interval t],
         closedConns = insert c (closedConns m'), exited = True\<rparr>"
      by (rule keepAliveLoop_unanswered [OF bad])
    have e: "keepAliveLoop t c (good @ p # rest) m = keepAliveLoop t c (p # rest) m'"
      using keepAliveLoop_answered [OF good, of c "p # rest" m] by (simp add: m'_def)
    show "exited (keepAliveLoop t c (good @ p # rest) m)"
      unfolding e r by simp
    show "closedConns (keepAliveLoop t c (good @ p # rest) m) = insert c (closedConns m)"
      unfolding e r by (simp add: m'_def)
    show "pings (keepAliveLoop t c (good @ p # rest) m) =
                 pings m @ schedule (interval t) (now m) (map latency good)
                   @ [now m + elapsed (interval t) good + interval t]"
      unfolding e r by (simp add: m'_def)
    show "now (keepAliveLoop t c (good @ p # rest) m)
                 = now m + elapsed (interval t) good + interval t + waited (interval t) p"
      unfolding e r by (simp add: m'_def)
  qed
  have late: "\<not> answered (interval t) q
        \<and> keepAliveLoop t c (q # rest) m =
          \<lparr>now = now m + interval t + interval t, pings = pings m @ [now m + interval t],
           closedConns = insert c (closedConns m), exited = True\<rparr>"
    if "request q = Hangs \<or> (\<exists>d ok b e. request q = Returns d ok b e \<and> interval t < d)"
    using that keepAliveLoop_times_out [OF that, of c rest m]
    by (auto simp: answered_def)
  from keepAliveLoop_pings [of t c ps "monitor0 closed"] obtain new where
    new: "pings (keepAliveLoop t c ps (monitor0 closed)) = new"
      "ticking (interval t) new"
      "new \<noteq> [] \<longrightarrow> hd new = interval t
            \<and> now (keepAliveLoop t c ps (monitor0 closed)) \<le> last new + interval t"
    by (auto simp: monitor0_def)
  have idem: "snd (conn_Close c r' (snd (conn_Close c r closed))) = snd (conn_Close c r closed)"
    "teardown c (teardown c m) = teardown c m"
    by (simp_all add: conn_Close_def teardown_def)
  have waits: "waited (interval t) p \<le> interval t"
    "answered (interval t) p \<longrightarrow> waited (interval t) p = latency p"
    by (simp_all add: waited_le waited_answered)
  from started tied rounds waits late new idem show ?thesis
    by simp
qed

theorem keepAliveLoop_rounds_witness:
  "list_all (answered 5) [pong2, pong2] \<and> \<not> answered 5 hang
   \<and> keepAliveLoop (New cfg5) 4 [pong2, pong2] (monitor0 {})
       = \<lparr>now = 14, pings = [5, 12], closedConns = {}, exited = False\<rparr>
   \<and> keepAliveLoop (New cfg5) 4 [pong2, pong2, hang, pong2] (monitor0 {})
       = \<lparr>now = 24, pings = [5, 12, 19], closedConns = {4}, exited = True\<rparr>
   \<and> ticking 5 [5, 12, 19]
   \<and> (\<exists>b. BindSSH (New cfg5) 4 None = Inr b \<and> KeepAliveLoop 4 \<in> set (started b))"
proof -
  have good: "list_all (answered 5) [pong2, pong2]" and bad: "\<not> answered 5 hang"
    by (simp_all add: answered_def pong2_def hang_def)
  have w: "waited 5 hang = 5"
    by (simp add: waited_def hang_def)
  have h: "request hang = Hangs"
    by (simp add: hang_def)
  have l: "latency pong2 = 2"
    by (simp add: latency_def pong2_def)
  obtain b where bind: "BindSSH (New cfg5) 4 None = Inr b"
    by (simp add: BindSSH_def New_def Let_def)
  have pos: "0 < sint (KeepAlive (Config (New cfg5)))"
    by (simp add: New_def cfg5_def)
  let ?m = "\<lparr>now = 14, pings = [5, 12], closedConns = {}, exited = False\<rparr>"
  have two: "keepAliveLoop (New cfg5) 4 [pong2, pong2] (monitor0 {}) = ?m"
    using keepAliveLoop_rounds [where t = "New cfg5" and c = 4 and good = "[pong2, pong2]"
        and m = "monitor0 {}"] good
    by (simp add: interval_cfg5 l monitor0_def)
  have four: "keepAliveLoop (New cfg5) 4 ([pong2, pong2] @ hang # [pong2]) (monitor0 {})
       = keepAliveLoop (New cfg5) 4 (hang # [pong2]) ?m"
    using keepAliveLoop_answered [where t = "New cfg5" and c = 4 and good = "[pong2, pong2]"
        and rest = "hang # [pong2]" and m = "monitor0 {}"] good
    by (simp add: interval_cfg5 l monitor0_def)
  from keepAliveLoop_rounds [where t = "New cfg5" and c = 4 and wait = None
      and good = "[pong2, pong2]" and p = hang and q = hang and rest = "[pong2]" and m = ?m
      and ps = "[pong2, pong2, hang, pong2]" and closed = "{}"]
    good bad h bind pos two four w
  show ?thesis
    by (simp add: interval_cfg5)
qed

text \<open>
  C2, as stated, fails. After a \<open>BindSSH\<close> whose context was cancelled has returned
  and its watcher has run \<open>DoneAll\<close> (line 81), the gate is open and no connection is
  registered. On that tunnel \<open>getSSH\<close>, with a context that is never cancelled and
  the timeout of 35 seconds, returns nil without blocking: not on cancellation, not
  on the timeout, and with no connection. On a new tunnel, a \<open>getSSH\<close> that the gate
  wakes after 7 nanoseconds returns nil as well when the connection bound then has
  been cleared again (line 105) before the reader takes the lock.
\<close>

theorem getSSH_open_gate_counterexample:
  "\<not> isDone never \<and> done_after never = None
   \<and> activeConn released = None
   \<and> EnvDuration (environ quiet) ''SSH_WAIT'' (35 * Second) = 35000000000
   \<and> getSSH released never quiet = (None, 0)
   \<and> activeConn (New cfg5) = None
   \<and> getSSH (New cfg5) never (quiet\<lparr>gate_opens := Some 7, active_then := None\<rparr>) = (None, 7)"
  by (simp add: released_def ctxWatcher_def BindSSH_def New_def Let_def isDone_def never_def
      quiet_def EnvDuration_def Second_def getSSH_def activatingConnWait_def reread_def
      wg_pending_def wg_DoneAll_def wg_Add_def go_select_def)

text \<open>
  C2, amended. \<open>getSSH\<close> returns nil at once when the context is cancelled
  already, and the registered connection at once when there is one. Otherwise it
  blocks until the first of: the cancellation of the context (nil), the timeout,
  which is \<open>SSH_WAIT\<close> when the environment configures it and 35 seconds otherwise
  (nil), and the gate being open; it then returns the \<open>activeConn\<close> field as it
  stands at that moment. A gate that is pending at the call opens when another
  goroutine opens it; a gate that is open at the call makes \<open>getSSH\<close> return the
  field at once, nil when no connection is registered. Whenever \<open>BindSSH\<close> has the
  gate open, the connection it was called with is registered.
\<close>

theorem getSSH_returns:
  "(isDone ctx \<longrightarrow> getSSH t ctx sur = (None, 0))
   \<and> (\<not> isDone ctx \<and> activeConn t = Some c \<longrightarrow> getSSH t ctx sur = (Some c, 0))
   \<and> (\<not> isDone ctx \<and> activeConn t = None \<and> getSSH t ctx sur = (r, d) \<longrightarrow>
        d \<le> EnvDuration (environ sur) ''SSH_WAIT'' (35 * Second)
        \<and> (\<forall>a. done_after ctx = Some a \<longrightarrow> d \<le> a)
        \<and> (\<forall>g. activatingConnWait t sur = Some g \<longrightarrow> d \<le> g)
        \<and> ((done_after ctx = Some d \<and> r = None)
            \<or> (d = EnvDuration (environ sur) ''SSH_WAIT'' (35 * Second) \<and> r = None)
            \<or> (activatingConnWait t sur = Some d \<and> r = reread t sur)))
   \<and> (environ sur ''SSH_WAIT'' = None \<longrightarrow>
        EnvDuration (environ sur) ''SSH_WAIT'' (35 * Second) = 35000000000)
   \<and> (environ sur ''SSH_WAIT'' = Some w \<longrightarrow>
        EnvDuration (environ sur) ''SSH_WAIT'' (35 * Second) = w)
   \<and> (wg_pending (activatingConn t) \<longrightarrow>
        activatingConnWait t sur = gate_opens sur \<and> reread t sur = active_then sur)
   \<and> (\<not> wg_pending (activatingConn t) \<longrightarrow>
        activatingConnWait t sur = Some 0 \<and> reread t sur = activeConn t)
   \<and> (BindSSH t' c' wait = Inr b \<and> s \<in> set (observed b) \<and> \<not> wg_pending (activatingConn s) \<longrightarrow>
        activeConn s = Some c')"
proof -
  have a: "isDone ctx \<longrightarrow> getSSH t ctx sur = (None, 0)"
    by (simp add: getSSH_def)
  have b: "\<not> isDone ctx \<and> activeConn t = Some c \<longrightarrow> getSSH t ctx sur = (Some c, 0)"
    by (simp add: getSSH_def)
  have c: "\<not> isDone ctx \<and> activeConn t = None \<and> getSSH t ctx sur = (r, d) \<longrightarrow>
        d \<le> EnvDuration (environ sur) ''SSH_WAIT'' (35 * Second)
        \<and> (\<forall>a. done_after ctx = Some a \<longrightarrow> d \<le> a)
        \<and> (\<forall>g. activatingConnWait t sur = Some g \<longrightarrow> d \<le> g)
        \<and> ((done_after ctx = Some d \<and> r = None)
            \<or> (d = EnvDuration (environ sur) ''SSH_WAIT'' (35 * Second) \<and> r = None)
            \<or> (activatingConnWait t sur = Some d \<and> r = reread t sur))"
    using getSSH_blocked [of ctx t sur r d] by (simp add: wait_for_def)
  have d: "(environ sur ''SSH_WAIT'' = None \<longrightarrow>
        EnvDuration (environ sur) ''SSH_WAIT'' (35 * Second) = 35000000000)
   \<and> (environ sur ''SSH_WAIT'' = Some w \<longrightarrow>
        EnvDuration (environ sur) ''SSH_WAIT'' (35 * Second) = w)"
    by (simp add: EnvDuration_def Second_def)
  have e: "(wg_pending (activatingConn t) \<longrightarrow>
        activatingConnWait t sur = gate_opens sur \<and> reread t sur = active_then sur)
   \<and> (\<not> wg_pending (activatingConn t) \<longrightarrow>
        activatingConnWait t sur = Some 0 \<and> reread t sur = activeConn t)"
    by (simp add: activatingConnWait_def reread_def)
  have f: "BindSSH t' c' wait = Inr b \<and> s \<in> set (observed b) \<and> \<not> wg_pending (activatingConn s) \<longrightarrow>
        activeConn s = Some c'"
    by (auto simp: BindSSH_def Let_def wg_pending_def wg_Add_def split: if_splits)
  from a b c d e f show ?thesis by blast
qed

theorem getSSH_returns_witness:
  "getSSH (New cfg5) \<lparr>done_after = Some 9\<rparr>
     \<lparr>environ = Map.empty, gate_opens = Some 7, active_then = Some 3, draw = 0\<rparr> = (Some 3, 7)
   \<and> getSSH (New cfg5) \<lparr>done_after = Some 0\<rparr> quiet = (None, 0)
   \<and> getSSH ((New cfg5)\<lparr>activeConn := Some 3\<rparr>) never quiet = (Some 3, 0)
   \<and> getSSH (New cfg5) never quiet = (None, 35000000000)
   \<and> (\<exists>b. BindSSH (New cfg5) 3 None = Inr b
          \<and> \<not> wg_pending (activatingConn (observed b ! 1))
          \<and> activeConn (observed b ! 1) = Some 3)"
proof -
  have bind: "\<exists>b. BindSSH (New cfg5) 3 None = Inr b
          \<and> \<not> wg_pending (activatingConn (observed b ! 1))
          \<and> activeConn (observed b ! 1) = Some 3"
    by (simp add: BindSSH_def New_def Let_def wg_pending_def wg_Add_def wg_Done_def)
  from getSSH_returns [where t = "New cfg5" and ctx = "\<lparr>done_after = Some 9\<rparr>"
      and sur = "\<lparr>environ = Map.empty, gate_opens = Some 7, active_then = Some 3, draw = 0\<rparr>"
      and r = "Some 3" and d = 7] bind
  show ?thesis
    by (simp add: getSSH_def isDone_def never_def quiet_def New_def wg_Add_def wg_pending_def
        activatingConnWait_def reread_def go_select_def EnvDuration_def Second_def)
qed

text \<open>
  C3. \<open>BindSSH\<close> on a tunnel whose \<open>activeConn\<close> is not nil panics with
  "double bind ssh". A call that returns found no connection registered, and in
  every state it publishes the registered connection is its own or none.
\<close>

theorem BindSSH_double_bind:
  "(activeConn t \<noteq> None \<longrightarrow> BindSSH t c wait = Inl (Panic ''double bind ssh''))
   \<and> (\<forall>b. BindSSH t c wait = Inr b \<longrightarrow>
          activeConn t = None
          \<and> (\<forall>s \<in> set (observed b). activeConn s = None \<or> activeConn s = Some c))"
  by (auto simp: BindSSH_def Let_def)

theorem BindSSH_double_bind_witness:
  "BindSSH ((New cfg5)\<lparr>activeConn := Some 1\<rparr>) 2 None = Inl (Panic ''double bind ssh'')
   \<and> (\<exists>b. BindSSH (New cfg5) 2 None = Inr b
          \<and> map activeConn (observed b) = [Some 2, Some 2, Some 2, None])"
  using BindSSH_double_bind [of "(New cfg5)\<lparr>activeConn := Some 1\<rparr>" 2 None]
    BindSSH_double_bind [of "New cfg5" 2 None]
  by (simp add: BindSSH_def New_def Let_def)

text \<open>
  C4. \<open>BindRemotes\<close> means to start every unit it has built in one group, but line
  168 calls \<open>proxy.tcp.Addr()\<close> for each unit before it hands the unit to \<open>eg.Go\<close>.
  When every unit listens on tcp, all units are started, and \<open>exits\<close> are the values
  their \<open>Run\<close> return, in the order in which they return: while fewer units have
  returned than were started the call is blocked; once all have returned it returns
  the first non-nil error among the returned values, and nil exactly when all of
  them are nil; the group cancels the scope as soon as a returned value is a
  non-nil error, even while the call is blocked, and it has not cancelled it while
  the call is blocked and no error has come. When a unit has no tcp listener, the
  call panics at that unit: only the units before it have been started, that unit
  and the ones after it never are, and the call returns nothing.
\<close>

theorem BindRemotes_starts_or_panics:
  assumes "remotes \<noteq> []" and "Inbound (Config t)"
    and "build NewProxy remotes t [] = (t', Inr proxies)"
  shows "((\<forall>p \<in> set proxies. tcp_Addr p \<noteq> None) \<longrightarrow>
       units (BindRemotes NewProxy tcp_Addr t remotes exits) = proxies
       \<and> length proxies = length remotes
       \<and> (length exits < length proxies \<longrightarrow>
            outcome (BindRemotes NewProxy tcp_Addr t remotes exits) = Blocked)
       \<and> (length proxies \<le> length exits \<longrightarrow>
            outcome (BindRemotes NewProxy tcp_Addr t remotes exits)
              = Returned (first_failure (take (length proxies) exits)))
       \<and> (outcome (BindRemotes NewProxy tcp_Addr t remotes exits) = Returned None \<longleftrightarrow>
            length proxies \<le> length exits
            \<and> (\<forall>e \<in> set (take (length proxies) exits). e = None))
       \<and> (\<exists>g. scope (BindRemotes NewProxy tcp_Addr t remotes exits) = Some g
             \<and> (first_failure (take (length proxies) exits) \<noteq> None \<longrightarrow> cancelled g)
             \<and> (length exits < length proxies \<and> first_failure exits = None \<longrightarrow>
                  \<not> cancelled g)))
    \<and> ((\<exists>p \<in> set proxies. tcp_Addr p = None) \<longrightarrow>
       outcome (BindRemotes NewProxy tcp_Addr t remotes exits)
         = Panicked (Panic ''invalid memory address or nil pointer dereference'')
       \<and> units (BindRemotes NewProxy tcp_Addr t remotes exits)
         = takeWhile (\<lambda>p. tcp_Addr p \<noteq> None) proxies
       \<and> length (units (BindRemotes NewProxy tcp_Addr t remotes exits)) < length proxies
       \<and> tunnel (BindRemotes NewProxy tcp_Addr t remotes exits) = t')"
proof (rule conjI; rule impI)
  assume tcp: "\<forall>p \<in> set proxies. tcp_Addr p \<noteq> None"
  define n where "n = length proxies"
  define g where "g = fold eg_returns exits (WithContext\<lparr>unreturned := n\<rparr>)"
  have all: "takeWhile (\<lambda>p. tcp_Addr p \<noteq> None) proxies = proxies"
    using tcp by (simp add: takeWhile_eq_all_conv)
  have l: "launch tcp_Addr proxies WithContext [] = (WithContext\<lparr>unreturned := n\<rparr>, proxies, None)"
    unfolding launch_eq all using tcp by (simp add: n_def WithContext_def)
  have g: "unreturned g = n - length exits"
    "first_error g = first_failure (take n exits)"
    "cancelled g = (first_failure (take n exits) \<noteq> None)"
    by (simp_all add: g_def fold_eg_returns WithContext_def)
  from build_units [OF assms(3)] have len: "length proxies = length remotes"
    by auto
  have blocked: "BindRemotes NewProxy tcp_Addr t remotes exits =
      \<lparr>tunnel = t', units = proxies, scope = Some g, outcome = Blocked\<rparr>"
    if "length exits < n"
    using that assms g(1) by (simp add: BindRemotes_def l eg_Wait_def g_def [symmetric])
  have returned: "BindRemotes NewProxy tcp_Addr t remotes exits =
      \<lparr>tunnel = t', units = proxies, scope = Some (g\<lparr>cancelled := True\<rparr>),
       outcome = Returned (first_failure (take n exits))\<rparr>"
    if "n \<le> length exits"
    using that assms g(1,2) by (simp add: BindRemotes_def l eg_Wait_def g_def [symmetric])
  show "units (BindRemotes NewProxy tcp_Addr t remotes exits) = proxies
       \<and> length proxies = length remotes
       \<and> (length exits < length proxies \<longrightarrow>
            outcome (BindRemotes NewProxy tcp_Addr t remotes exits) = Blocked)
       \<and> (length proxies \<le> length exits \<longrightarrow>
            outcome (BindRemotes NewProxy tcp_Addr t remotes exits)
              = Returned (first_failure (take (length proxies) exits)))
       \<and> (outcome (BindRemotes NewProxy tcp_Addr t remotes exits) = Returned None \<longleftrightarrow>
            length proxies \<le> length exits
            \<and> (\<forall>e \<in> set (take (length proxies) exits). e = None))
       \<and> (\<exists>g. scope (BindRemotes NewProxy tcp_Addr t remotes exits) = Some g
             \<and> (first_failure (take (length proxies) exits) \<noteq> None \<longrightarrow> cancelled g)
             \<and> (length exits < length proxies \<and> first_failure exits = None \<longrightarrow>
                  \<not> cancelled g))"
  proof (cases "length exits < n")
    case True
    then have "take n exits = exits" by simp
    with blocked [OF True] True g(3) len show ?thesis
      by (simp add: n_def [symmetric])
  next
    case False
    then have "n \<le> length exits" by simp
    from returned [OF this] this len show ?thesis
      by (simp add: n_def [symmetric] first_failure_None)
  qed
next
  assume nil: "\<exists>p \<in> set proxies. tcp_Addr p = None"
  define before where "before = takeWhile (\<lambda>p. tcp_Addr p \<noteq> None) proxies"
  from nil have differ: "before \<noteq> proxies"
    by (auto simp: before_def takeWhile_eq_all_conv)
  have prefix: "before = take (length before) proxies"
    unfolding before_def by (rule takeWhile_eq_take)
  have "length before \<noteq> length proxies"
  proof
    assume "length before = length proxies"
    with prefix have "before = proxies" by simp
    with differ show False ..
  qed
  moreover have "length before \<le> length proxies"
    by (simp add: before_def length_takeWhile_le)
  ultimately have short: "length before < length proxies"
    by simp
  have l: "launch tcp_Addr proxies WithContext [] =
      (WithContext\<lparr>unreturned := length before\<rparr>, before,
       Some (Panic ''invalid memory address or nil pointer dereference''))"
    unfolding launch_eq before_def [symmetric] using nil by (auto simp: WithContext_def)
  have r: "BindRemotes NewProxy tcp_Addr t remotes exits =
      \<lparr>tunnel = t', units = before, scope = Some (WithContext\<lparr>unreturned := length before\<rparr>),
       outcome = Panicked (Panic ''invalid memory address or nil pointer dereference'')\<rparr>"
    using assms by (simp add: BindRemotes_def l)
  show "outcome (BindRemotes NewProxy tcp_Addr t remotes exits)
         = Panicked (Panic ''invalid memory address or nil pointer dereference'')
       \<and> units (BindRemotes NewProxy tcp_Addr t remotes exits)
         = takeWhile (\<lambda>p. tcp_Addr p \<noteq> None) proxies
       \<and> length (units (BindRemotes NewProxy tcp_Addr t remotes exits)) < length proxies
       \<and> tunnel (BindRemotes NewProxy tcp_Addr t remotes exits) = t'"
    using short by (simp add: r before_def)
qed

theorem BindRemotes_starts_or_panics_witness:
  "BindRemotes accept udp_second (New cfg5) [80, 81, 82] [None]
    = \<lparr>tunnel = (New cfg5)\<lparr>proxyCount := 3\<rparr>, units = [0],
       scope = Some \<lparr>unreturned = 1, first_error = None, cancelled = False\<rparr>,
       outcome = Panicked (Panic ''invalid memory address or nil pointer dereference'')\<rparr>
   \<and> BindRemotes accept all_tcp (New cfg5) [80, 81, 82]
      [None, Some (Error ''listener closed''), Some (Error ''context canceled'')]
    = \<lparr>tunnel = (New cfg5)\<lparr>proxyCount := 3\<rparr>, units = [0, 1, 2],
       scope = Some \<lparr>unreturned = 0, first_error = Some (Error ''listener closed''),
                     cancelled = True\<rparr>,
       outcome = Returned (Some (Error ''listener closed''))\<rparr>
   \<and> outcome (BindRemotes accept all_tcp (New cfg5) [80, 81, 82]
        [None, Some (Error ''listener closed'')]) = Blocked"
proof -
  have ne: "[80, 81, 82] \<noteq> ([] :: nat list)" by simp
  have inb: "Inbound (Config (New cfg5))"
    by (simp add: New_def cfg5_def)
  have b: "build accept [80, 81, 82] (New cfg5) [] = ((New cfg5)\<lparr>proxyCount := 3\<rparr>, Inr [0, 1, 2])"
    by (simp add: accept_def New_def)
  from BindRemotes_starts_or_panics [OF ne inb b, of udp_second "[None]"]
    BindRemotes_starts_or_panics [OF ne inb b, of all_tcp
      "[None, Some (Error ''listener closed''), Some (Error ''context canceled'')]"]
    BindRemotes_starts_or_panics [OF ne inb b, of all_tcp
      "[None, Some (Error ''listener closed'')]"]
  show ?thesis
    by (simp add: BindRemotes_def b inb Let_def eg_Wait_def eg_returns_def eg_Go_def
        WithContext_def all_tcp_def udp_second_def del: build.simps)
qed

text \<open>
  C5. \<open>BindRemotes\<close> with no remotes returns the error "no remotes", and with
  remotes on a tunnel whose \<open>Inbound\<close> is false the error "inbound connections
  blocked". In both cases no unit is built or started, no group is made and the
  tunnel is left as it was.
\<close>

theorem BindRemotes_refuses:
  "BindRemotes NewProxy tcp_Addr t [] exits =
     \<lparr>tunnel = t, units = [], scope = None, outcome = Returned (Some (Error ''no remotes''))\<rparr>
   \<and> (\<not> Inbound (Config t) \<longrightarrow> remotes \<noteq> [] \<longrightarrow>
        BindRemotes NewProxy tcp_Addr t remotes exits =
          \<lparr>tunnel = t, units = [], scope = None,
           outcome = Returned (Some (Error ''inbound connections blocked''))\<rparr>)"
  by (simp add: BindRemotes_def)

theorem BindRemotes_refuses_witness:
  "outcome (BindRemotes accept all_tcp ((New cfg5)\<lparr>Config := cfg5\<lparr>Inbound := False\<rparr>\<rparr>)
      [1, 2] [None]) = Returned (Some (Error ''inbound connections blocked''))
   \<and> units (BindRemotes accept all_tcp ((New cfg5)\<lparr>Config := cfg5\<lparr>Inbound := False\<rparr>\<rparr>)
      [1, 2] [None]) = []"
  using BindRemotes_refuses [where NewProxy = accept and tcp_Addr = all_tcp
      and t = "(New cfg5)\<lparr>Config := cfg5\<lparr>Inbound := False\<rparr>\<rparr>" and exits = "[None]"
      and remotes = "[1, 2]"]
  by (simp add: cfg5_def)

text \<open>
  C6. A reply without transport error whose payload is neither empty nor "pong"
  makes the probe report the error "strange ping response". A round whose request
  never returns, returns later than one interval, returns an error or returns such
  a payload ends the monitor: it has exited, the connection is closed, and the
  ping of that round is the last one sent, whatever rounds might have followed.
\<close>

theorem keepalive_failure_is_terminal:
  "(b \<noteq> [] \<and> b \<noteq> ''pong'' \<longrightarrow>
      (\<exists>vs. KeepAliveChan (Returns d ok b None) = Some (d, vs)
          \<and> receive vs = Some (Error ''strange ping response'')))
   \<and> (request p = Hangs
       \<or> (\<exists>d ok b e. request p = Returns d ok b e
            \<and> (e \<noteq> None \<or> (b \<noteq> [] \<and> b \<noteq> ''pong'') \<or> interval t < d)) \<longrightarrow>
       exited (keepAliveLoop t c (p # ps) m)
       \<and> closedConns (keepAliveLoop t c (p # ps) m) = insert c (closedConns m)
       \<and> pings (keepAliveLoop t c (p # ps) m) = pings m @ [now m + interval t])"
proof (intro conjI impI)
  assume "b \<noteq> [] \<and> b \<noteq> ''pong''"
  then show "\<exists>vs. KeepAliveChan (Returns d ok b None) = Some (d, vs)
          \<and> receive vs = Some (Error ''strange ping response'')"
    by (simp add: KeepAliveChan_def receive_def)
next
  assume "request p = Hangs
       \<or> (\<exists>d ok b e. request p = Returns d ok b e
            \<and> (e \<noteq> None \<or> (b \<noteq> [] \<and> b \<noteq> ''pong'') \<or> interval t < d))"
  from keepAliveLoop_fails [OF this, of c ps m]
  show "exited (keepAliveLoop t c (p # ps) m)"
    and "closedConns (keepAliveLoop t c (p # ps) m) = insert c (closedConns m)"
    and "pings (keepAliveLoop t c (p # ps) m) = pings m @ [now m + interval t]"
    by auto
qed

theorem keepalive_failure_is_terminal_witness:
  "receive [Error ''strange ping response''] = Some (Error ''strange ping response'')
   \<and> keepAliveLoop (New cfg5) 4
       [\<lparr>request = Returns 2 True ''pong'' None, pick = 0\<rparr>,
        \<lparr>request = Returns 2 True ''bad'' None, pick = 0\<rparr>,
        \<lparr>request = Returns 2 True ''pong'' None, pick = 0\<rparr>] (monitor0 {})
     = \<lparr>now = 14, pings = [5, 12], closedConns = {4}, exited = True\<rparr>"
proof -
  let ?good = "\<lparr>request = Returns 2 True ''pong'' None, pick = 0\<rparr>"
  let ?bad = "\<lparr>request = Returns 2 True ''bad'' None, pick = 0\<rparr>"
  let ?m = "\<lparr>now = 7, pings = [5], closedConns = {}, exited = False\<rparr>"
  have first: "keepAliveLoop (New cfg5) 4 [?good, ?bad, ?good] (monitor0 {})
      = keepAliveLoop (New cfg5) 4 [?bad, ?good] ?m"
    by (simp add: keepAliveLoop_step interval_cfg5 monitor0_def)
  have then_bad: "keepAliveLoop (New cfg5) 4 [?bad, ?good] ?m
      = \<lparr>now = 14, pings = [5, 12], closedConns = {4}, exited = True\<rparr>"
    by (simp add: keepAliveLoop_step interval_cfg5 teardown_def conn_Close_def)
  from keepalive_failure_is_terminal [where b = "''bad''" and d = 2 and ok = True
      and p = ?bad and t = "New cfg5" and c = 4 and ps = "[?good]" and m = ?m]
    first then_bad
  show ?thesis by (simp add: KeepAliveChan_def)
qed

text \<open>
  C7. When \<open>BindSSH\<close> returns, the value returned is the one \<open>c.Wait()\<close> gave (nil
  or an error), \<open>activeConn\<close> is nil and the gate is pending. The call arms the gate
  before it clears the field: the state it publishes just before the final one
  still holds the connection and has the gate pending, and none of the states it
  publishes has the field cleared with the gate open. The states are those of the
  call's own writes.
\<close>

theorem BindSSH_returns:
  assumes "BindSSH t c wait = Inr b"
  shows "returned b = wait
    \<and> activeConn (final b) = None
    \<and> wg_pending (activatingConn (final b))
    \<and> (\<exists>before s. observed b = before @ [s, final b]
           \<and> activeConn s = Some c \<and> wg_pending (activatingConn s))
    \<and> (\<forall>s \<in> set (observed b). activeConn s = None \<longrightarrow> wg_pending (activatingConn s))"
proof -
  define t2 where "t2 = t\<lparr>activeConn := Some c, activatingConn := wg_Done (activatingConn t)\<rparr>"
  define t3 where "t3 = t2\<lparr>activatingConn := wg_Add 1 (activatingConn t2)\<rparr>"
  define t4 where "t4 = t3\<lparr>activeConn := None\<rparr>"
  from assms have free: "activeConn t = None"
    by (simp add: BindSSH_def split: if_splits)
  with assms have ret: "returned b = wait" and fin: "final b = t4"
    and obs: "observed b = [t\<lparr>activeConn := Some c\<rparr>, t2] @ [t3, t4]"
    by (auto simp: BindSSH_def Let_def t2_def t3_def t4_def)
  have pend3: "wg_pending (activatingConn t3)" and act3: "activeConn t3 = Some c"
    by (simp_all add: t3_def t2_def wg_pending_def wg_Add_def)
  have pend4: "wg_pending (activatingConn t4)" and act4: "activeConn t4 = None"
    by (simp_all add: t4_def t3_def t2_def wg_pending_def wg_Add_def)
  have order: "\<exists>before s. observed b = before @ [s, final b]
           \<and> activeConn s = Some c \<and> wg_pending (activatingConn s)"
    using obs fin pend3 act3 by blast
  have safe: "\<forall>s \<in> set (observed b). activeConn s = None \<longrightarrow> wg_pending (activatingConn s)"
    using obs pend4 act3 by (auto simp: t2_def)
  from ret fin pend4 act4 order safe show ?thesis by simp
qed

theorem BindSSH_returns_witness:
  "\<exists>b. BindSSH (New cfg5) 7 (Some (Error ''EOF'')) = Inr b
      \<and> returned b = Some (Error ''EOF'') \<and> activeConn (final b) = None
      \<and> wg_pending (activatingConn (final b))"
proof -
  obtain b where h: "BindSSH (New cfg5) 7 (Some (Error ''EOF'')) = Inr b"
    by (simp add: BindSSH_def New_def Let_def)
  from BindSSH_returns [OF h] h show ?thesis by blast
qed

text \<open>
  C8. \<open>Close\<close> returns nil and closes nothing when \<open>getSSH\<close> gives nil, which is
  what happens after the timeout when no connection is registered, the gate stays
  shut and the context is never cancelled. When \<open>getSSH\<close> gives a connection,
  \<open>Close\<close> closes it and returns what the transport's \<open>Close\<close> returned.
\<close>

theorem Close_result:
  "(fst (getSSH t ctx sur) = None \<longrightarrow> Close t ctx sur r closed = (None, closed))
   \<and> (\<forall>c. fst (getSSH t ctx sur) = Some c \<longrightarrow>
          Close t ctx sur r closed = conn_Close c r closed
          \<and> fst (Close t ctx sur r closed) = r
          \<and> c \<in> snd (Close t ctx sur r closed))
   \<and> (activeConn t = None \<and> wg_pending (activatingConn t) \<and> gate_opens sur = None
        \<and> done_after ctx = None \<longrightarrow>
        getSSH t ctx sur = (None, EnvDuration (environ sur) ''SSH_WAIT'' (35 * Second))
        \<and> Close t ctx sur r closed = (None, closed))"
  by (auto simp: Close_def conn_Close_def getSSH_def isDone_def activatingConnWait_def
      reread_def go_select_def)

theorem Close_result_witness:
  "Close (New cfg5) never quiet (Some (Error ''closed'')) {} = (None, {})
   \<and> Close ((New cfg5)\<lparr>activeConn := Some 3\<rparr>) never quiet (Some (Error ''closed'')) {}
       = (Some (Error ''closed''), {3})"
  using Close_result [of "New cfg5" never quiet "Some (Error ''closed'')" "{}"]
    Close_result [of "(New cfg5)\<lparr>activeConn := Some 3\<rparr>" never quiet
      "Some (Error ''closed'')" "{}"]
  by (simp add: getSSH_def isDone_def never_def quiet_def New_def wg_Add_def wg_pending_def
      conn_Close_def)

text \<open>
  C9, as stated, fails where the Go \<open>int\<close> wraps around. On a tunnel whose
  \<open>proxyCount\<close> is the largest \<open>int\<close>, 9223372036854775807, a \<open>BindRemotes\<close> that
  builds one unit gives that unit the index 9223372036854775807 and leaves the
  count at the smallest \<open>int\<close>.
\<close>

theorem proxyCount_wraps_counterexample:
  "sint (proxyCount full) = 9223372036854775807
   \<and> sint (proxyCount (tunnel (BindRemotes accept all_tcp full [8080] []))) = - 9223372036854775808
   \<and> units (BindRemotes accept all_tcp full [8080] []) = [9223372036854775807]"
  by (simp add: full_def BindRemotes_def New_def cfg5_def accept_def all_tcp_def
      WithContext_def eg_Go_def eg_Wait_def)

text \<open>
  C9, amended. Every call adds to \<open>proxyCount\<close>, in the arithmetic of the Go
  \<open>int\<close>, the number of units it builds, which is zero for every call but
  \<open>BindRemotes\<close>. The units \<open>BindRemotes\<close> starts were built by \<open>NewProxy\<close> with the
  indices \<open>proxyCount\<close>, \<open>proxyCount + 1\<close>, ... in the order of the remotes. Over a
  lifetime that starts with \<open>New\<close> the count is the number of units built so far,
  from call to call without a reset, and as long as fewer than \<open>2 ^ 63\<close> units have
  been built it never decreases.
\<close>

theorem proxyCount_grows:
  fixes call :: "('r, 'p) call" and calls xs ys :: "('r, 'p) call list"
    and NewProxy :: "64 word \<Rightarrow> 'r \<Rightarrow> error + 'p"
  shows "proxyCount (after t call) = proxyCount t + of_nat (grown t call)
   \<and> (\<forall>i < length (units (BindRemotes NewProxy tcp_Addr t remotes exits)).
        NewProxy (proxyCount t + of_nat i) (remotes ! i)
          = Inr (units (BindRemotes NewProxy tcp_Addr t remotes exits) ! i))
   \<and> (build NewProxy remotes t [] = (t', Inr proxies) \<longrightarrow>
        length proxies = length remotes
        \<and> (\<forall>i < length remotes.
              NewProxy (proxyCount t + of_nat i) (remotes ! i) = Inr (proxies ! i)))
   \<and> proxyCount (lifetime cfg calls) = of_nat (total_built (New cfg) calls)
   \<and> (int (total_built (New cfg) (xs @ ys)) < 2 ^ 63 \<longrightarrow>
        sint (proxyCount (lifetime cfg xs)) = int (total_built (New cfg) xs)
        \<and> sint (proxyCount (lifetime cfg (xs @ ys))) = int (total_built (New cfg) (xs @ ys))
        \<and> sint (proxyCount (lifetime cfg xs)) \<le> sint (proxyCount (lifetime cfg (xs @ ys))))"
proof -
  have idx: "\<forall>i < length (units (BindRemotes NewProxy tcp_Addr t remotes exits)).
        NewProxy (proxyCount t + of_nat i) (remotes ! i)
          = Inr (units (BindRemotes NewProxy tcp_Addr t remotes exits) ! i)"
  proof (cases "build NewProxy remotes t []")
    case (Pair t' res)
    show ?thesis
    proof (cases res)
      case (Inl e)
      with Pair show ?thesis by (simp add: BindRemotes_def)
    next
      case (Inr ps)
      with Pair have b: "build NewProxy remotes t [] = (t', Inr ps)" by simp
      from build_units [OF b] have built:
        "\<forall>i < length remotes. NewProxy (proxyCount t + of_nat i) (remotes ! i) = Inr (ps ! i)"
        and len: "length ps = length remotes"
        by auto
      have "units (BindRemotes NewProxy tcp_Addr t remotes exits)
          = takeWhile (\<lambda>p. tcp_Addr p \<noteq> None) ps
          \<or> units (BindRemotes NewProxy tcp_Addr t remotes exits) = []"
        using b by (auto simp: BindRemotes_def launch_eq Let_def split: option.splits)
      then have "units (BindRemotes NewProxy tcp_Addr t remotes exits)
          = take (length (units (BindRemotes NewProxy tcp_Addr t remotes exits))) ps"
        using takeWhile_eq_take [of "\<lambda>p. tcp_Addr p \<noteq> None" ps] by auto
      then obtain k where k: "units (BindRemotes NewProxy tcp_Addr t remotes exits) = take k ps"
        by blast
      have "length (take k ps) \<le> length ps" and "\<forall>i < length (take k ps). take k ps ! i = ps ! i"
        by simp_all
      with built len show ?thesis unfolding k by auto
    qed
  qed
  have life: "proxyCount (lifetime cfg zs) = of_nat (total_built (New cfg) zs)"
    for zs :: "('r, 'p) call list"
    using lifetime_count [of "New cfg" zs] by (simp add: lifetime_def New_def)
  have mono: "sint (proxyCount (lifetime cfg xs)) = int (total_built (New cfg) xs)
        \<and> sint (proxyCount (lifetime cfg (xs @ ys))) = int (total_built (New cfg) (xs @ ys))
        \<and> sint (proxyCount (lifetime cfg xs)) \<le> sint (proxyCount (lifetime cfg (xs @ ys)))"
    if small: "int (total_built (New cfg) (xs @ ys)) < 2 ^ 63"
  proof -
    have le: "total_built (New cfg) xs \<le> total_built (New cfg) (xs @ ys)"
      by (simp add: total_built_append)
    with small have small': "int (total_built (New cfg) xs) < 2 ^ 63" by linarith
    have "sint (proxyCount (lifetime cfg xs)) = int (total_built (New cfg) xs)"
      using life [of xs] sint_of_nat_small [OF small'] by simp
    moreover have "sint (proxyCount (lifetime cfg (xs @ ys))) = int (total_built (New cfg) (xs @ ys))"
      using life [of "xs @ ys"] sint_of_nat_small [OF small] by simp
    ultimately show ?thesis using le by simp
  qed
  have all: "build NewProxy remotes t [] = (t', Inr proxies) \<longrightarrow>
        length proxies = length remotes
        \<and> (\<forall>i < length remotes.
              NewProxy (proxyCount t + of_nat i) (remotes ! i) = Inr (proxies ! i))"
    using build_units [of NewProxy remotes t "[]" t' proxies] by auto
  from after_count [of t call] idx all life [of calls] mono show ?thesis by blast
qed


theorem proxyCount_grows_witness:
  "sint (proxyCount (lifetime cfg5 [CallBindRemotes accept all_tcp [80, 81] []])) = 2
   \<and> sint (proxyCount (lifetime cfg5
        [CallBindRemotes accept all_tcp [80, 81] [], CallBindSSH 1 None,
         CallBindRemotes accept all_tcp [82] [None]])) = 3
   \<and> units (BindRemotes accept all_tcp (New cfg5) [80, 81] []) = [0, 1]"
proof -
  let ?xs = "[CallBindRemotes accept all_tcp [80, 81] []]"
  let ?ys = "[CallBindSSH 1 None, CallBindRemotes accept all_tcp [82] [None]]"
  have b: "build accept [80, 81] (New cfg5) [] = ((New cfg5)\<lparr>proxyCount := 2\<rparr>, Inr [0, 1])"
    by (simp add: accept_def New_def)
  have n: "total_built (New cfg5) (?xs @ ?ys) = 3" "total_built (New cfg5) ?xs = 2"
    by (simp_all add: New_def cfg5_def accept_def all_tcp_def BindRemotes_def BindSSH_def
        Let_def WithContext_def eg_Go_def eg_Wait_def eg_returns_def)
  have inb: "Inbound (Config (New cfg5))"
    by (simp add: New_def cfg5_def)
  have u: "units (BindRemotes accept all_tcp (New cfg5) [80, 81] []) = [0, 1]"
    by (simp add: BindRemotes_def b inb Let_def eg_Wait_def all_tcp_def split: option.splits
        del: build.simps)
  from proxyCount_grows [where cfg = cfg5 and xs = ?xs and ys = ?ys and t = "New cfg5"
      and call = "CallBindSSH 1 None" and NewProxy = accept and tcp_Addr = all_tcp
      and remotes = "[80, 81]"
      and exits = "[]" and calls = "[]"] n u
  show ?thesis by simp
qed

text \<open>
  C10. A reply without error and with an empty payload makes the probe report
  nil. When the \<open>select\<close> takes it, that is, it arrives before the interval has
  passed, or with it and the draw falls on it, the loop goes on to its next round
  with the remaining probes; the monitor has not exited and the store of
  connections is as it was.
\<close>

theorem empty_reply_is_success:
  "KeepAliveChan (Returns d ok [] None) = Some (d, []) \<and> receive [] = None
   \<and> (request p = Returns d ok [] None
       \<and> (d < interval t \<or> (d = interval t \<and> odd (pick p))) \<longrightarrow>
       keepAliveLoop t c (p # ps) m =
         keepAliveLoop t c ps
           (m\<lparr>pings := pings m @ [now m + interval t], now := now m + interval t + d\<rparr>)
       \<and> exited (keepAliveLoop t c [p] m) = exited m
       \<and> closedConns (keepAliveLoop t c [p] m) = closedConns m)"
  by (auto simp: KeepAliveChan_def receive_def keepAliveLoop_continues)

theorem empty_reply_is_success_witness:
  "keepAliveLoop (New cfg5) 4 [\<lparr>request = Returns 3 False [] None, pick = 0\<rparr>] (monitor0 {})
     = \<lparr>now = 8, pings = [5], closedConns = {}, exited = False\<rparr>"
  using empty_reply_is_success [where d = 3 and ok = False
      and p = "\<lparr>request = Returns 3 False [] None, pick = 0\<rparr>"
      and t = "New cfg5" and c = 4 and ps = "[]" and m = "monitor0 {}"]
  by (simp add: interval_cfg5 monitor0_def)

end
